theory Spec2Isabelle
  imports Main
begin

section \<open>Role-based permission resolution (src/permissions/role.ts)\<close>

text \<open>
  The class \<open>Role\<close> of \<^verbatim>\<open>src/permissions/role.ts\<close> keeps its permission lists in
  JavaScript arrays. Arrays and \<open>Role\<close> objects are reference values: the constructor
  stores the caller's array in two fields, \<open>add\<close> pushes onto an array in place,
  \<open>remove\<close> and lodash's \<open>union\<close> build new arrays. The model therefore has an
  explicit store with two kinds of cells, arrays of strings and \<open>Role\<close> objects, and
  every method takes the store and returns the new one.

  Strings are lists of characters, read as the code units below 256; permission names are
  compared character by character, as \<open>===\<close> and \<open>Array.prototype.includes\<close> do on
  strings.
\<close>

subsection \<open>String helpers of the JavaScript library\<close>

text \<open>
  \<open>String.prototype.split\<close> with a one-character separator: the pieces between the
  separators, in order; a string without separator is its only piece, the empty string
  included (\<open>"".split(":")\<close> is \<open>[""]\<close>).
\<close>

fun split :: "char \<Rightarrow> string \<Rightarrow> string list" where
  "split sep [] = [[]]"
| "split sep (c # cs) =
     (if c = sep then [] # split sep cs
      else (c # hd (split sep cs)) # tl (split sep cs))"

text \<open>\<open>Array.prototype.join\<close> with a one-character separator.\<close>

fun join :: "char \<Rightarrow> string list \<Rightarrow> string" where
  "join sep [] = []"
| "join sep [s] = s"
| "join sep (s # t # ss) = s @ sep # join sep (t # ss)"

text \<open>lodash \<open>dropRight(array, n)\<close>: the array without its last \<open>n\<close> elements.\<close>

definition dropRight :: "'a list \<Rightarrow> nat \<Rightarrow> 'a list" where
  "dropRight xs n = take (length xs - n) xs"

text \<open>
  lodash \<open>union(a, b)\<close>: the values of \<open>a\<close> followed by those of \<open>b\<close>, each kept at its
  first occurrence only. \<open>baseUniq\<close> is the loop of lodash that pushes a value onto the
  result unless the result already holds it.
\<close>

fun baseUniq :: "'a list \<Rightarrow> 'a list \<Rightarrow> 'a list" where
  "baseUniq result [] = result"
| "baseUniq result (v # vs) =
     baseUniq (if v \<in> set result then result else result @ [v]) vs"

definition union_lodash :: "'a list \<Rightarrow> 'a list \<Rightarrow> 'a list" where
  "union_lodash xs ys = baseUniq [] (xs @ ys)"

subsection \<open>The regular expressions that \<open>has\<close> builds\<close>

text \<open>
  \<open>has\<close> evaluates \<^verbatim>\<open>new RegExp(`(${prefix}.*)`, 'i').test(permission)\<close>. The prefix
  comes from a permission entry and is read by the engine as pattern source. The model
  implements the fragment of the pattern language that permission names reach: one group
  around a sequence of atoms, an atom being a plain character or the dot, each atom
  optionally followed by a star. A star with nothing to repeat makes \<open>new RegExp\<close> throw
  a \<open>SyntaxError\<close>. A source with any other syntax character is outside the fragment:
  it is answered by the second error value, and no theorem of this theory speaks about
  the verdict there.
\<close>

datatype error = SyntaxError | RegExp_outside_fragment

datatype atom = Lit char | Dot

datatype item = Once atom | Many atom

text \<open>The syntax characters of the pattern language: \<^verbatim>\<open>^ $ . * + ? ( ) [ ] { } |\<close> and the
  backslash (code \<open>0x5C\<close>).\<close>

definition syntax_char :: "char \<Rightarrow> bool" where
  "syntax_char c = (c = CHR 0x5C \<or> c \<in> set ''^$.*+?()[]{}|'')"

text \<open>
  Flag \<open>i\<close> without flag \<open>u\<close>: two characters match when their canonical forms are
  equal, the canonical form being the upper-case character. On the code units below 256
  that is the ASCII letters and the Latin-1 letters \<open>0xE0..0xFE\<close> except \<open>0xF7\<close>.
\<close>

definition canonicalize :: "char \<Rightarrow> char" where
  "canonicalize c =
     (let n = (of_char c :: nat) in
      if (97 \<le> n \<and> n \<le> 122) \<or> (224 \<le> n \<and> n \<le> 254 \<and> n \<noteq> 247)
      then char_of (n - 32) else c)"

text \<open>The dot matches every character but the line terminators.\<close>

fun atom_matches :: "atom \<Rightarrow> char \<Rightarrow> bool" where
  "atom_matches (Lit a) c = (canonicalize a = canonicalize c)"
| "atom_matches Dot c = (c \<noteq> CHR 0x0A \<and> c \<noteq> CHR 0x0D)"

text \<open>The body of the group, read left to right.\<close>

fun parse_items :: "string \<Rightarrow> error + item list" where
  "parse_items [] = Inr []"
| "parse_items (c # cs) =
     (if c = CHR ''*'' then Inl SyntaxError
      else if syntax_char c \<and> c \<noteq> CHR ''.'' then Inl RegExp_outside_fragment
      else let a = (if c = CHR ''.'' then Dot else Lit c) in
        (case cs of
           [] \<Rightarrow> Inr [Once a]
         | d # ds \<Rightarrow>
             if d = CHR ''*''
             then (case parse_items ds of Inl e \<Rightarrow> Inl e | Inr its \<Rightarrow> Inr (Many a # its))
             else (case parse_items cs of Inl e \<Rightarrow> Inl e | Inr its \<Rightarrow> Inr (Once a # its))))"

text \<open>The sources that \<open>has\<close> builds are one group: \<open>(\<close>, the body, \<open>)\<close>.\<close>

definition parse_RegExp :: "string \<Rightarrow> error + item list" where
  "parse_RegExp src =
     (case src of
        [] \<Rightarrow> Inl RegExp_outside_fragment
      | c # cs \<Rightarrow>
          if c = CHR ''('' \<and> cs \<noteq> [] \<and> last cs = CHR '')''
          then parse_items (butlast cs) else Inl RegExp_outside_fragment)"

text \<open>
  \<open>matches_here its s\<close>: the items match a prefix of \<open>s\<close>. \<open>test\<close> asks only whether a
  match exists, so the order in which the engine tries the repetitions does not matter.
\<close>

fun matches_here :: "item list \<Rightarrow> string \<Rightarrow> bool" where
  "matches_here [] s = True"
| "matches_here (Once a # its) [] = False"
| "matches_here (Once a # its) (c # cs) = (atom_matches a c \<and> matches_here its cs)"
| "matches_here (Many a # its) [] = matches_here its []"
| "matches_here (Many a # its) (c # cs) =
     (matches_here its (c # cs) \<or> (atom_matches a c \<and> matches_here (Many a # its) cs))"

text \<open>\<open>test\<close> is not anchored: the match may start at any position of the subject.\<close>

fun matches_somewhere :: "item list \<Rightarrow> string \<Rightarrow> bool" where
  "matches_somewhere its [] = matches_here its []"
| "matches_somewhere its (c # cs) = (matches_here its (c # cs) \<or> matches_somewhere its cs)"

definition RegExp_i_test :: "string \<Rightarrow> string \<Rightarrow> error + bool" where
  "RegExp_i_test src subject =
     (case parse_RegExp src of
        Inl e \<Rightarrow> Inl e
      | Inr its \<Rightarrow> Inr (matches_somewhere its subject))"

subsection \<open>The store\<close>

text \<open>
  An array reference and an object reference are numbers; \<open>arrays_top\<close> and
  \<open>roles_top\<close> are the next references to be handed out. Every array and object the
  program holds lies below them.
\<close>

type_synonym addr = nat

type_synonym ref = nat

datatype RoleType = internal | custom

text \<open>
  The fields of class \<open>Role\<close>. \<open>rawPermissions\<close> and \<open>permissions\<close> hold array
  references, \<open>inherits\<close> the references of the parent objects. \<open>pointBoost\<close> is only
  stored and returned, so the JavaScript number is an integer here.
\<close>

record Role =
  id_Role :: string
  name :: string
  slug :: string
  type_Role :: RoleType
  rawPermissions :: addr
  permissions :: addr
  inherits :: "ref list"
  pointBoost :: int

text \<open>
  Interface \<open>UserRole\<close>, the argument of the constructor; the two optional fields are
  options.
\<close>

record UserRole =
  id_arg :: string
  name_arg :: string
  type_arg :: RoleType
  permissions_arg :: addr
  inherits_arg :: "ref list option"
  boost_arg :: "int option"

record store =
  arrays :: "addr \<Rightarrow> string list"
  arrays_top :: addr
  roles :: "ref \<Rightarrow> Role"
  roles_top :: ref

text \<open>A new array (an array literal, the result of \<open>union\<close> or of \<open>filter\<close>).\<close>

definition new_array :: "string list \<Rightarrow> store \<Rightarrow> addr \<times> store" where
  "new_array xs st =
     (arrays_top st,
      st\<lparr>arrays := (arrays st)(arrays_top st := xs), arrays_top := Suc (arrays_top st)\<rparr>)"

text \<open>Assignment to \<open>this.permissions\<close>.\<close>

definition assign_permissions :: "ref \<Rightarrow> addr \<Rightarrow> store \<Rightarrow> store" where
  "assign_permissions this a st =
     st\<lparr>roles := (roles st)(this := (roles st this)\<lparr>permissions := a\<rparr>)\<rparr>"

subsection \<open>The constructor\<close>

text \<open>
  One round of the \<open>forEach\<close> of line 59:
  \<^verbatim>\<open>this.permissions = union(this.permissions, inherit.permissions)\<close>.
\<close>

definition inherit_from :: "ref \<Rightarrow> ref \<Rightarrow> store \<Rightarrow> store" where
  "inherit_from this inherit st =
     (let (a, st') =
            new_array
              (union_lodash (arrays st (permissions (roles st this)))
                            (arrays st (permissions (roles st inherit)))) st
      in assign_permissions this a st')"

text \<open>
  \<open>new Role({...})\<close>. \<open>kebabCase\<close> is the function of lodash, a parameter of the
  model. Both \<open>permissions\<close> and \<open>rawPermissions\<close> receive the caller's array itself
  (lines 53 and 54); the rounds of \<open>forEach\<close> then run over the parents in order.
\<close>

definition Role_new :: "(string \<Rightarrow> string) \<Rightarrow> UserRole \<Rightarrow> store \<Rightarrow> ref \<times> store" where
  "Role_new kebabCase u st =
     (let this = roles_top st;
          inherits = (case inherits_arg u of None \<Rightarrow> [] | Some rs \<Rightarrow> rs);
          boost = (case boost_arg u of None \<Rightarrow> 0 | Some b \<Rightarrow> b);
          obj = \<lparr> id_Role = id_arg u, name = name_arg u, slug = kebabCase (name_arg u),
                  type_Role = type_arg u, rawPermissions = permissions_arg u,
                  permissions = permissions_arg u, inherits = inherits,
                  pointBoost = boost \<rparr>;
          st1 = st\<lparr>roles := (roles st)(this := obj), roles_top := Suc this\<rparr>
      in (this, fold (inherit_from this) inherits st1))"

subsection \<open>The queries\<close>

text \<open>
  The loop of \<open>has\<close> (lines 72 to 77): the first entry one of whose segments is \<open>*\<close>
  returns the verdict of its regular expression.
\<close>

fun has_scan :: "string list \<Rightarrow> string \<Rightarrow> error + bool" where
  "has_scan [] permission = Inr False"
| "has_scan (e # es) permission =
     (let perm = split CHR '':'' e in
      if ''*'' \<in> set perm
      then RegExp_i_test (''('' @ join CHR '':'' (dropRight perm 1) @ ''.*)'') permission
      else has_scan es permission)"

definition has :: "store \<Rightarrow> ref \<Rightarrow> string \<Rightarrow> error + bool" where
  "has st this permission =
     (let permissions = arrays st (permissions (roles st this)) in
      if permission \<in> set permissions then Inr True
      else has_scan permissions permission)"

fun hasInRaw_scan :: "string list \<Rightarrow> string \<Rightarrow> bool" where
  "hasInRaw_scan [] permission = False"
| "hasInRaw_scan (e # es) permission =
     (if e = permission then True else hasInRaw_scan es permission)"

definition hasInRaw :: "store \<Rightarrow> ref \<Rightarrow> string \<Rightarrow> bool" where
  "hasInRaw st this permission =
     hasInRaw_scan (arrays st (rawPermissions (roles st this))) permission"

definition getId :: "store \<Rightarrow> ref \<Rightarrow> string" where
  "getId st this = id_Role (roles st this)"

definition getName :: "store \<Rightarrow> ref \<Rightarrow> string" where
  "getName st this = name (roles st this)"

definition getSlug :: "store \<Rightarrow> ref \<Rightarrow> string" where
  "getSlug st this = slug (roles st this)"

definition getType :: "store \<Rightarrow> ref \<Rightarrow> RoleType" where
  "getType st this = type_Role (roles st this)"

definition getInherits :: "store \<Rightarrow> ref \<Rightarrow> ref list" where
  "getInherits st this = inherits (roles st this)"

text \<open>\<open>getPerms\<close> returns the array itself, not a copy.\<close>

definition getPerms :: "store \<Rightarrow> ref \<Rightarrow> addr" where
  "getPerms st this = permissions (roles st this)"

definition getBoost :: "store \<Rightarrow> ref \<Rightarrow> int" where
  "getBoost st this = pointBoost (roles st this)"

subsection \<open>The mutators\<close>

definition setBoost :: "ref \<Rightarrow> int \<Rightarrow> store \<Rightarrow> int \<times> store" where
  "setBoost this boost st =
     (let st' = st\<lparr>roles := (roles st)(this := (roles st this)\<lparr>pointBoost := boost\<rparr>)\<rparr>
      in (pointBoost (roles st' this), st'))"

text \<open>\<open>set\<close> stores the caller's array itself and returns \<open>this\<close>.\<close>

definition set_Role :: "ref \<Rightarrow> addr \<Rightarrow> store \<Rightarrow> ref \<times> store" where
  "set_Role this a st = (this, assign_permissions this a st)"

text \<open>\<open>add\<close> pushes onto the array that \<open>this.permissions\<close> refers to, in place.\<close>

definition add :: "ref \<Rightarrow> string \<Rightarrow> store \<Rightarrow> store" where
  "add this permission st =
     (let a = permissions (roles st this) in
      if permission \<notin> set (arrays st a)
      then st\<lparr>arrays := (arrays st)(a := arrays st a @ [permission])\<rparr>
      else st)"

text \<open>\<open>remove\<close> assigns the new array that \<open>filter\<close> returns.\<close>

definition remove :: "ref \<Rightarrow> string \<Rightarrow> store \<Rightarrow> store" where
  "remove this permission st =
     (let (a, st') =
            new_array
              (filter (\<lambda>perm. perm \<noteq> permission) (arrays st (permissions (roles st this)))) st
      in assign_permissions this a st')"

subsection \<open>Callers\<close>

text \<open>
  A caller that builds a role from an array literal:
  \<^verbatim>\<open>new Role({ id, name, type, permissions: [...], inherits })\<close>.
\<close>

definition Role_new_literal ::
  "(string \<Rightarrow> string) \<Rightarrow> string \<Rightarrow> string list \<Rightarrow> ref list option \<Rightarrow> store \<Rightarrow> ref \<times> store" where
  "Role_new_literal kebabCase nm xs inh st =
     (let (a, st1) = new_array xs st
      in Role_new kebabCase
           \<lparr> id_arg = nm, name_arg = nm, type_arg = custom, permissions_arg = a,
             inherits_arg = inh, boost_arg = None \<rparr> st1)"

text \<open>A caller that mutates one role by a sequence of calls.\<close>

datatype mutation = Set addr | Add string | Remove string

fun mutate :: "ref \<Rightarrow> mutation \<Rightarrow> store \<Rightarrow> store" where
  "mutate this (Set a) st = snd (set_Role this a st)"
| "mutate this (Add permission) st = add this permission st"
| "mutate this (Remove permission) st = remove this permission st"

text \<open>The list of strings that a role's \<open>permissions\<close> field refers to, and the raw one.\<close>

definition effectivePermissions :: "store \<Rightarrow> ref \<Rightarrow> string list" where
  "effectivePermissions st this = arrays st (permissions (roles st this))"

definition rawPermissionsList :: "store \<Rightarrow> ref \<Rightarrow> string list" where
  "rawPermissionsList st this = arrays st (rawPermissions (roles st this))"

text \<open>
  The text between the parentheses of the pattern that \<open>has\<close> builds from an entry:
  the segments of the entry without the last one, joined by colons.
\<close>

definition wildcard_prefix :: "string \<Rightarrow> string" where
  "wildcard_prefix e = join CHR '':'' (dropRight (split CHR '':'' e) 1)"

subsection \<open>The matching rule in the words of the specification\<close>

text \<open>
  The specification describes \<open>has\<close> as follows: after the exact match, scan the entries
  in order; an entry whose last segment is \<open>*\<close> is a wildcard entry, and the first
  wildcard entry decides by testing whether the permission starts with the joined
  segments before the marker, ignoring case. The definitions below follow these words;
  they are compared with \<open>has\<close> further down.
\<close>

definition spec_wildcard_entry :: "string \<Rightarrow> bool" where
  "spec_wildcard_entry e = (last (split CHR '':'' e) = ''*'')"

definition spec_starts_with :: "string \<Rightarrow> string \<Rightarrow> bool" where
  "spec_starts_with pre s =
     (map canonicalize (take (length pre) s) = map canonicalize pre)"

fun spec_has_scan :: "string list \<Rightarrow> string \<Rightarrow> bool" where
  "spec_has_scan [] permission = False"
| "spec_has_scan (e # es) permission =
     (if spec_wildcard_entry e
      then spec_starts_with (join CHR '':'' (butlast (split CHR '':'' e))) permission
      else spec_has_scan es permission)"

definition spec_has :: "string list \<Rightarrow> string \<Rightarrow> bool" where
  "spec_has es permission = (permission \<in> set es \<or> spec_has_scan es permission)"

subsection \<open>Example programs\<close>

definition blank_Role :: Role where
  "blank_Role =
     \<lparr> id_Role = [], name = [], slug = [], type_Role = custom, rawPermissions = 0,
       permissions = 0, inherits = [], pointBoost = 0 \<rparr>"

definition empty_store :: store where
  "empty_store =
     \<lparr> arrays = (\<lambda>a. []), arrays_top = 0, roles = (\<lambda>r. blank_Role), roles_top = 0 \<rparr>"

text \<open>
  One role without parents, built from the array literal \<open>xs\<close>: the role is object \<open>0\<close>
  and its array is array \<open>0\<close>. The names of the example roles are single lower-case
  words, which \<open>kebabCase\<close> returns as they are.
\<close>

definition one_role :: "string list \<Rightarrow> store" where
  "one_role xs = snd (Role_new_literal id ''user'' xs None empty_store)"

text \<open>
  A parent (object \<open>0\<close>) built from \<open>xs\<close> and a child (object \<open>1\<close>) built from \<open>ys\<close>
  that inherits the parent.
\<close>

definition parent_and_child :: "string list \<Rightarrow> string list \<Rightarrow> store" where
  "parent_and_child xs ys =
     snd (Role_new_literal id ''child'' ys (Some [0]) (one_role xs))"

section \<open>Facts about the helpers\<close>

subsection \<open>Lists\<close>

lemma set_baseUniq: "set (baseUniq result vs) = set result \<union> set vs"
  by (induction vs arbitrary: result) auto

lemma distinct_baseUniq: "distinct result \<Longrightarrow> distinct (baseUniq result vs)"
  by (induction vs arbitrary: result) auto

lemma set_union_lodash: "set (union_lodash xs ys) = set xs \<union> set ys"
  by (simp add: union_lodash_def set_baseUniq)

lemma distinct_union_lodash: "distinct (union_lodash xs ys)"
  by (simp add: union_lodash_def distinct_baseUniq)

lemma hasInRaw_scan_iff: "hasInRaw_scan es p \<longleftrightarrow> p \<in> set es"
  by (induction es) auto

subsection \<open>The scan of \<open>has\<close> and its regular expressions\<close>

lemma has_scan_no_wildcard:
  "\<forall>x\<in>set es. ''*'' \<notin> set (split CHR '':'' x) \<Longrightarrow> has_scan es p = Inr False"
  by (induction es) (simp_all add: Let_def)

lemma has_scan_first_wildcard:
  "\<forall>x\<in>set before. ''*'' \<notin> set (split CHR '':'' x) \<Longrightarrow> ''*'' \<in> set (split CHR '':'' e) \<Longrightarrow>
   has_scan (before @ e # after) p =
     RegExp_i_test (''('' @ join CHR '':'' (dropRight (split CHR '':'' e) 1) @ ''.*)'') p"
  by (induction before) (simp_all add: Let_def)

lemma parse_items_plain:
  "\<forall>c\<in>set pre. \<not> syntax_char c \<Longrightarrow>
   parse_items (pre @ ''.*'') = Inr (map (\<lambda>c. Once (Lit c)) pre @ [Many Dot])"
proof (induction pre)
  case Nil
  show ?case by (simp add: syntax_char_def)
next
  case (Cons c cs)
  then have c: "\<not> syntax_char c" and cs: "\<forall>c\<in>set cs. \<not> syntax_char c" by simp_all
  from c have dot: "c \<noteq> CHR ''.''" and star: "c \<noteq> CHR ''*''"
    by (auto simp: syntax_char_def)
  have nostar: "hd (cs @ ''.*'') \<noteq> CHR ''*''"
    using cs by (cases cs) (auto simp: syntax_char_def)
  obtain d ds where split: "cs @ ''.*'' = d # ds" by (cases "cs @ ''.*''") auto
  with nostar have "d \<noteq> CHR ''*''" by simp
  with c dot star split Cons.IH [OF cs] show ?case by (simp add: Let_def)
qed

lemma parse_RegExp_plain:
  "\<forall>c\<in>set pre. \<not> syntax_char c \<Longrightarrow>
   parse_RegExp (''('' @ pre @ ''.*)'') = Inr (map (\<lambda>c. Once (Lit c)) pre @ [Many Dot])"
proof -
  assume a: "\<forall>c\<in>set pre. \<not> syntax_char c"
  have "butlast (pre @ ''.*)'') = pre @ ''.*''" by (simp add: butlast_append)
  moreover have "last (pre @ ''.*)'') = CHR '')''" by simp
  ultimately show ?thesis using parse_items_plain [OF a] by (simp add: parse_RegExp_def)
qed

lemma matches_here_any: "matches_here [Many Dot] s"
  by (induction s) auto

lemma matches_here_plain:
  "matches_here (map (\<lambda>c. Once (Lit c)) pre @ [Many Dot]) s \<longleftrightarrow>
   (\<exists>v. map canonicalize s = map canonicalize pre @ v)"
proof (induction pre arbitrary: s)
  case Nil
  show ?case by (simp add: matches_here_any)
next
  case (Cons c cs)
  show ?case by (cases s) (auto simp: Cons.IH)
qed

lemma matches_somewhere_plain:
  "matches_somewhere (map (\<lambda>c. Once (Lit c)) pre @ [Many Dot]) s \<longleftrightarrow>
   (\<exists>u v. map canonicalize s = u @ map canonicalize pre @ v)"
proof (induction s)
  case Nil
  show ?case by (simp add: matches_here_plain)
next
  case (Cons c cs)
  let ?P = "map canonicalize pre"
  have "(\<exists>u v. map canonicalize (c # cs) = u @ ?P @ v) \<longleftrightarrow>
        (\<exists>v. map canonicalize (c # cs) = ?P @ v) \<or> (\<exists>u v. map canonicalize cs = u @ ?P @ v)"
  proof
    assume "\<exists>u v. map canonicalize (c # cs) = u @ ?P @ v"
    then obtain u v where uv: "map canonicalize (c # cs) = u @ ?P @ v" by blast
    show "(\<exists>v. map canonicalize (c # cs) = ?P @ v) \<or> (\<exists>u v. map canonicalize cs = u @ ?P @ v)"
    proof (cases u)
      case Nil
      with uv show ?thesis by auto
    next
      case (Cons x u')
      with uv have "map canonicalize cs = u' @ ?P @ v" by simp
      then show ?thesis by blast
    qed
  next
    assume "(\<exists>v. map canonicalize (c # cs) = ?P @ v) \<or> (\<exists>u v. map canonicalize cs = u @ ?P @ v)"
    then show "\<exists>u v. map canonicalize (c # cs) = u @ ?P @ v"
    proof
      assume "\<exists>v. map canonicalize (c # cs) = ?P @ v"
      then obtain v where "map canonicalize (c # cs) = [] @ ?P @ v" by auto
      then show ?thesis by blast
    next
      assume "\<exists>u v. map canonicalize cs = u @ ?P @ v"
      then obtain u v where "map canonicalize cs = u @ ?P @ v" by blast
      then have "map canonicalize (c # cs) = (canonicalize c # u) @ ?P @ v" by simp
      then show ?thesis by blast
    qed
  qed
  then show ?case by (simp add: matches_here_plain Cons.IH)
qed

lemma RegExp_i_test_plain:
  "\<forall>c\<in>set pre. \<not> syntax_char c \<Longrightarrow>
   RegExp_i_test (''('' @ pre @ ''.*)'') s =
     Inr (\<exists>u v. map canonicalize s = u @ map canonicalize pre @ v)"
  using parse_RegExp_plain [of pre] by (simp add: RegExp_i_test_def matches_somewhere_plain)

subsection \<open>The constructor's rounds of \<open>forEach\<close>\<close>

lemma arrays_inherit_from:
  "arrays (inherit_from this p st) =
     (arrays st)(arrays_top st :=
        union_lodash (arrays st (permissions (roles st this))) (arrays st (permissions (roles st p))))"
  by (simp add: inherit_from_def new_array_def assign_permissions_def)

lemma arrays_top_inherit_from: "arrays_top (inherit_from this p st) = Suc (arrays_top st)"
  by (simp add: inherit_from_def new_array_def assign_permissions_def)

lemma roles_inherit_from:
  "roles (inherit_from this p st) =
     (roles st)(this := (roles st this)\<lparr>permissions := arrays_top st\<rparr>)"
  by (simp add: inherit_from_def new_array_def assign_permissions_def)

lemma roles_top_inherit_from: "roles_top (inherit_from this p st) = roles_top st"
  by (simp add: inherit_from_def new_array_def assign_permissions_def)

lemmas inherit_from_simps =
  arrays_inherit_from arrays_top_inherit_from roles_inherit_from roles_top_inherit_from

lemma fold_inherit_from_frame:
  "arrays_top (fold (inherit_from this) ps st) = arrays_top st + length ps \<and>
   roles_top (fold (inherit_from this) ps st) = roles_top st \<and>
   (\<forall>a<arrays_top st. arrays (fold (inherit_from this) ps st) a = arrays st a) \<and>
   (\<forall>r. r \<noteq> this \<longrightarrow> roles (fold (inherit_from this) ps st) r = roles st r) \<and>
   roles (fold (inherit_from this) ps st) this =
     (roles st this)\<lparr>permissions :=
        (if ps = [] then permissions (roles st this) else arrays_top st + length ps - 1)\<rparr>"
proof (induction ps arbitrary: st)
  case Nil
  show ?case by simp
next
  case (Cons p ps)
  let ?st1 = "inherit_from this p st"
  let ?st' = "fold (inherit_from this) ps ?st1"
  note IH = Cons.IH [of ?st1]
  from IH have top: "arrays_top ?st' = arrays_top st + length (p # ps)"
    by (simp add: arrays_top_inherit_from)
  from IH have rtop: "roles_top ?st' = roles_top st"
    by (simp add: roles_top_inherit_from)
  from IH have "\<forall>a<arrays_top ?st1. arrays ?st' a = arrays ?st1 a" by blast
  then have arr: "\<forall>a<arrays_top st. arrays ?st' a = arrays st a"
    by (simp add: arrays_top_inherit_from arrays_inherit_from)
  from IH have "\<forall>r. r \<noteq> this \<longrightarrow> roles ?st' r = roles ?st1 r" by blast
  then have oth: "\<forall>r. r \<noteq> this \<longrightarrow> roles ?st' r = roles st r"
    by (simp add: roles_inherit_from)
  from IH have "roles ?st' this =
     (roles ?st1 this)\<lparr>permissions :=
        (if ps = [] then permissions (roles ?st1 this) else arrays_top ?st1 + length ps - 1)\<rparr>"
    by blast
  then have self: "roles ?st' this =
     (roles st this)\<lparr>permissions := arrays_top st + length (p # ps) - 1\<rparr>"
    by (simp add: roles_inherit_from arrays_top_inherit_from)
  from top rtop arr oth self show ?case by simp
qed

lemma fold_inherit_from_permissions:
  "this \<notin> set ps \<Longrightarrow> \<forall>p\<in>set ps. permissions (roles st p) < arrays_top st \<Longrightarrow>
   arrays (fold (inherit_from this) ps st) (permissions (roles (fold (inherit_from this) ps st) this)) =
     foldl (\<lambda>acc p. union_lodash acc (arrays st (permissions (roles st p))))
       (arrays st (permissions (roles st this))) ps"
proof (induction ps arbitrary: st)
  case Nil
  show ?case by simp
next
  case (Cons p ps)
  let ?st1 = "inherit_from this p st"
  from Cons.prems have p: "p \<noteq> this" "permissions (roles st p) < arrays_top st"
    and ps: "this \<notin> set ps" "\<forall>q\<in>set ps. permissions (roles st q) < arrays_top st" by auto
  have same: "\<And>q. q \<in> set ps \<Longrightarrow>
      arrays ?st1 (permissions (roles ?st1 q)) = arrays st (permissions (roles st q))"
    using ps by (auto simp: inherit_from_simps)
  have "\<forall>q\<in>set ps. permissions (roles ?st1 q) < arrays_top ?st1"
    using ps by (auto simp: inherit_from_simps less_Suc_eq)
  from Cons.IH [OF ps(1) this]
  have "arrays (fold (inherit_from this) ps ?st1)
          (permissions (roles (fold (inherit_from this) ps ?st1) this)) =
        foldl (\<lambda>acc q. union_lodash acc (arrays ?st1 (permissions (roles ?st1 q))))
          (arrays ?st1 (permissions (roles ?st1 this))) ps" .
  also have "\<dots> = foldl (\<lambda>acc q. union_lodash acc (arrays st (permissions (roles st q))))
          (arrays ?st1 (permissions (roles ?st1 this))) ps"
    by (rule foldl_cong) (simp_all add: same)
  also have "arrays ?st1 (permissions (roles ?st1 this)) =
      union_lodash (arrays st (permissions (roles st this))) (arrays st (permissions (roles st p)))"
    by (simp add: inherit_from_simps)
  finally show ?case by simp
qed

lemma set_foldl_union_lodash:
  "set (foldl (\<lambda>acc p. union_lodash acc (f p)) xs ps) = set xs \<union> (\<Union>p\<in>set ps. set (f p))"
  by (induction ps arbitrary: xs) (auto simp: set_union_lodash)

lemma distinct_foldl_union_lodash:
  "ps \<noteq> [] \<Longrightarrow> distinct (foldl (\<lambda>acc p. union_lodash acc (f p)) xs ps)"
  by (induction ps arbitrary: xs rule: rev_induct) (auto simp: distinct_union_lodash)

subsection \<open>The mutators and the queries on the store\<close>

lemma roles_add: "roles (add this p st) = roles st"
  by (simp add: add_def Let_def)

lemma arrays_add:
  "arrays (add this p st) =
     (if p \<in> set (arrays st (permissions (roles st this))) then arrays st
      else (arrays st)(permissions (roles st this) :=
             arrays st (permissions (roles st this)) @ [p]))"
  by (simp add: add_def Let_def)

lemma tops_add:
  "arrays_top (add this p st) = arrays_top st" "roles_top (add this p st) = roles_top st"
  by (simp_all add: add_def Let_def)

lemma arrays_remove:
  "arrays (remove this p st) =
     (arrays st)(arrays_top st :=
        filter (\<lambda>perm. perm \<noteq> p) (arrays st (permissions (roles st this))))"
  by (simp add: remove_def new_array_def assign_permissions_def)

lemma roles_remove:
  "roles (remove this p st) = (roles st)(this := (roles st this)\<lparr>permissions := arrays_top st\<rparr>)"
  by (simp add: remove_def new_array_def assign_permissions_def)

lemma tops_remove:
  "arrays_top (remove this p st) = Suc (arrays_top st)" "roles_top (remove this p st) = roles_top st"
  by (simp_all add: remove_def new_array_def assign_permissions_def)

lemma arrays_set_Role: "arrays (snd (set_Role this a st)) = arrays st"
  by (simp add: set_Role_def assign_permissions_def)

lemma roles_set_Role:
  "roles (snd (set_Role this a st)) = (roles st)(this := (roles st this)\<lparr>permissions := a\<rparr>)"
  by (simp add: set_Role_def assign_permissions_def)

lemma tops_set_Role:
  "arrays_top (snd (set_Role this a st)) = arrays_top st"
  "roles_top (snd (set_Role this a st)) = roles_top st"
  by (simp_all add: set_Role_def assign_permissions_def)

lemma effectivePermissions_add:
  "effectivePermissions (add this p st) this =
     (if p \<in> set (effectivePermissions st this) then effectivePermissions st this
      else effectivePermissions st this @ [p])"
  by (simp add: effectivePermissions_def roles_add arrays_add)

lemma effectivePermissions_remove:
  "effectivePermissions (remove this p st) this =
     filter (\<lambda>perm. perm \<noteq> p) (effectivePermissions st this)"
  by (simp add: effectivePermissions_def roles_remove arrays_remove)

lemma effectivePermissions_set_Role:
  "effectivePermissions (snd (set_Role this a st)) this = arrays st a"
  by (simp add: effectivePermissions_def roles_set_Role arrays_set_Role)

lemma has_effectivePermissions:
  "has st this p =
     (if p \<in> set (effectivePermissions st this) then Inr True
      else has_scan (effectivePermissions st this) p)"
  by (simp add: has_def effectivePermissions_def Let_def)

lemma hasInRaw_rawPermissionsList:
  "hasInRaw st this p \<longleftrightarrow> p \<in> set (rawPermissionsList st this)"
  by (simp add: hasInRaw_def rawPermissionsList_def hasInRaw_scan_iff)

lemma Role_new_no_parents:
  "inherits_arg u = None \<or> inherits_arg u = Some [] \<Longrightarrow> Role_new kebabCase u st = (r, st') \<Longrightarrow>
   arrays st' = arrays st \<and>
   permissions (roles st' r) = permissions_arg u \<and>
   rawPermissions (roles st' r) = permissions_arg u"
  by (auto simp: Role_new_def Let_def)

subsection \<open>The constructor\<close>

lemma Role_new_ref: "Role_new kebabCase u st = (r, st') \<Longrightarrow> r = roles_top st"
  by (auto simp: Role_new_def Let_def)

lemma Role_new_frame:
  assumes new: "Role_new kebabCase u st = (r, st')" and inh: "inherits_arg u = Some ps"
  shows "arrays_top st' = arrays_top st + length ps"
    and "roles_top st' = Suc (roles_top st)"
    and "\<forall>a<arrays_top st. arrays st' a = arrays st a"
    and "\<forall>q. q \<noteq> r \<longrightarrow> roles st' q = roles st q"
    and "rawPermissions (roles st' r) = permissions_arg u"
    and "permissions (roles st' r) =
           (if ps = [] then permissions_arg u else arrays_top st + length ps - 1)"
proof -
  define obj where "obj =
    \<lparr> id_Role = id_arg u, name = name_arg u, slug = kebabCase (name_arg u),
      type_Role = type_arg u, rawPermissions = permissions_arg u,
      permissions = permissions_arg u, inherits = ps,
      pointBoost = (case boost_arg u of None \<Rightarrow> 0 | Some b \<Rightarrow> b) \<rparr>"
  define st1 where "st1 = st\<lparr>roles := (roles st)(roles_top st := obj), roles_top := Suc (roles_top st)\<rparr>"
  from new inh have r: "r = roles_top st" and st': "st' = fold (inherit_from r) ps st1"
    by (auto simp: Role_new_def Let_def st1_def obj_def)
  note fr = fold_inherit_from_frame [of r ps st1]
  from fr show "arrays_top st' = arrays_top st + length ps" by (simp add: st' st1_def)
  from fr show "roles_top st' = Suc (roles_top st)" by (simp add: st' st1_def)
  from fr show "\<forall>a<arrays_top st. arrays st' a = arrays st a" by (simp add: st' st1_def)
  from fr have "\<forall>q. q \<noteq> r \<longrightarrow> roles st' q = roles st1 q" by (simp add: st')
  then show "\<forall>q. q \<noteq> r \<longrightarrow> roles st' q = roles st q" by (simp add: st1_def r)
  from fr have self: "roles st' r = (roles st1 r)\<lparr>permissions :=
        (if ps = [] then permissions (roles st1 r) else arrays_top st1 + length ps - 1)\<rparr>"
    by (simp add: st')
  have obj: "roles st1 r = obj" by (simp add: st1_def r)
  from self show "rawPermissions (roles st' r) = permissions_arg u"
    by (simp add: obj obj_def)
  have top1: "arrays_top st1 = arrays_top st" by (simp add: st1_def)
  from self show "permissions (roles st' r) =
           (if ps = [] then permissions_arg u else arrays_top st + length ps - 1)"
    by (simp add: obj top1 obj_def)
qed

lemma effective_list_after_Role_new:
  assumes new: "Role_new kebabCase u st = (r, st')" and inh: "inherits_arg u = Some ps"
    and parents: "\<forall>p\<in>set ps. p < roles_top st \<and> permissions (roles st p) < arrays_top st"
  shows "effectivePermissions st' r =
           foldl (\<lambda>acc p. union_lodash acc (effectivePermissions st p))
             (arrays st (permissions_arg u)) ps"
proof -
  define obj where "obj =
    \<lparr> id_Role = id_arg u, name = name_arg u, slug = kebabCase (name_arg u),
      type_Role = type_arg u, rawPermissions = permissions_arg u,
      permissions = permissions_arg u, inherits = ps,
      pointBoost = (case boost_arg u of None \<Rightarrow> 0 | Some b \<Rightarrow> b) \<rparr>"
  define st1 where "st1 = st\<lparr>roles := (roles st)(roles_top st := obj), roles_top := Suc (roles_top st)\<rparr>"
  from new inh have r: "r = roles_top st" and st': "st' = fold (inherit_from r) ps st1"
    by (auto simp: Role_new_def Let_def st1_def obj_def)
  from parents have notin: "r \<notin> set ps" by (auto simp: r)
  have same: "\<And>p. p \<in> set ps \<Longrightarrow> roles st1 p = roles st p"
    using notin by (auto simp: st1_def r)
  from parents have below: "\<forall>p\<in>set ps. permissions (roles st1 p) < arrays_top st1"
    by (simp add: same) (simp add: st1_def)
  have "effectivePermissions st' r =
      foldl (\<lambda>acc p. union_lodash acc (arrays st1 (permissions (roles st1 p))))
        (arrays st1 (permissions (roles st1 r))) ps"
    unfolding effectivePermissions_def st'
    by (rule fold_inherit_from_permissions [OF notin below])
  also have "\<dots> = foldl (\<lambda>acc p. union_lodash acc (effectivePermissions st p))
        (arrays st1 (permissions (roles st1 r))) ps"
  proof (rule foldl_cong)
    fix acc p assume "p \<in> set ps"
    then have "roles st1 p = roles st p" by (rule same)
    then show "union_lodash acc (arrays st1 (permissions (roles st1 p))) =
        union_lodash acc (effectivePermissions st p)"
      by (simp add: effectivePermissions_def) (simp add: st1_def)
  qed simp_all
  also have "arrays st1 (permissions (roles st1 r)) = arrays st (permissions_arg u)"
    by (simp add: st1_def r obj_def)
  finally show ?thesis .
qed

lemma Role_new_distinct_with_parents:
  assumes new: "Role_new kebabCase u st = (r, st')" and inh: "inherits_arg u = Some (ps @ [p])"
  shows "distinct (effectivePermissions st' r)"
proof -
  define obj where "obj =
    \<lparr> id_Role = id_arg u, name = name_arg u, slug = kebabCase (name_arg u),
      type_Role = type_arg u, rawPermissions = permissions_arg u,
      permissions = permissions_arg u, inherits = ps @ [p],
      pointBoost = (case boost_arg u of None \<Rightarrow> 0 | Some b \<Rightarrow> b) \<rparr>"
  define st1 where "st1 = st\<lparr>roles := (roles st)(roles_top st := obj), roles_top := Suc (roles_top st)\<rparr>"
  define st2 where "st2 = fold (inherit_from r) ps st1"
  from new inh have "st' = fold (inherit_from r) (ps @ [p]) st1"
    by (auto simp: Role_new_def Let_def st1_def obj_def)
  then have st': "st' = inherit_from r p st2" by (simp add: st2_def)
  show ?thesis
    by (simp add: st' effectivePermissions_def inherit_from_simps distinct_union_lodash)
qed

subsection \<open>Mutations of another role\<close>

lemma mutate_other_role:
  assumes "p \<noteq> c"
    and "permissions (roles st p) \<noteq> permissions (roles st c)"
    and "permissions (roles st c) < arrays_top st"
    and "m \<noteq> Set (permissions (roles st c))"
  shows "roles (mutate p m st) c = roles st c"
    and "arrays (mutate p m st) (permissions (roles st c)) = arrays st (permissions (roles st c))"
    and "permissions (roles (mutate p m st) p) \<noteq> permissions (roles st c)"
    and "permissions (roles st c) < arrays_top (mutate p m st)"
proof -
  show "roles (mutate p m st) c = roles st c"
    using assms(1) by (cases m) (simp_all add: roles_set_Role roles_add roles_remove)
  show "arrays (mutate p m st) (permissions (roles st c)) = arrays st (permissions (roles st c))"
    using assms(2,3) by (cases m) (simp_all add: arrays_set_Role arrays_add arrays_remove)
  show "permissions (roles (mutate p m st) p) \<noteq> permissions (roles st c)"
    using assms(2,3,4) by (cases m) (simp_all add: roles_set_Role roles_add roles_remove)
  show "permissions (roles st c) < arrays_top (mutate p m st)"
    using assms(3) by (cases m) (simp_all add: tops_set_Role tops_add tops_remove)
qed

lemma fold_mutate_other_role:
  "p \<noteq> c \<Longrightarrow> permissions (roles st p) \<noteq> permissions (roles st c) \<Longrightarrow>
   permissions (roles st c) < arrays_top st \<Longrightarrow>
   \<forall>m\<in>set ms. m \<noteq> Set (permissions (roles st c)) \<Longrightarrow>
   effectivePermissions (fold (mutate p) ms st) c = effectivePermissions st c"
proof (induction ms arbitrary: st)
  case Nil
  show ?case by simp
next
  case (Cons m ms)
  from Cons.prems have m: "m \<noteq> Set (permissions (roles st c))" by simp
  note step = mutate_other_role [OF Cons.prems(1) Cons.prems(2) Cons.prems(3) m]
  let ?st1 = "mutate p m st"
  have same: "permissions (roles ?st1 c) = permissions (roles st c)" by (simp add: step(1))
  have "effectivePermissions (fold (mutate p) ms ?st1) c = effectivePermissions ?st1 c"
  proof (rule Cons.IH [OF Cons.prems(1)])
    show "permissions (roles ?st1 p) \<noteq> permissions (roles ?st1 c)" by (simp add: same step(3))
    show "permissions (roles ?st1 c) < arrays_top ?st1" by (simp add: same step(4))
    show "\<forall>m\<in>set ms. m \<noteq> Set (permissions (roles ?st1 c))"
      using Cons.prems(4) by (simp add: same)
  qed
  also have "\<dots> = effectivePermissions st c"
    by (simp add: effectivePermissions_def same step(2))
  finally show ?case by simp
qed

subsection \<open>Rules that evaluate the model on concrete programs\<close>

lemma char_eq_char_of_iff: "c = char_of (n::nat) \<longleftrightarrow> take_bit 8 n = of_char c"
  using char_of_eq_iff [of n c] by auto

lemmas evaluation_rules =
  RegExp_i_test_def parse_RegExp_def syntax_char_def dropRight_def canonicalize_def
  char_of_eq_iff char_eq_char_of_iff union_lodash_def wildcard_prefix_def
  new_array_def assign_permissions_def inherit_from_def Role_new_def Role_new_literal_def
  has_def hasInRaw_def getPerms_def set_Role_def add_def remove_def
  effectivePermissions_def rawPermissionsList_def
  blank_Role_def empty_store_def one_role_def parent_and_child_def

section \<open>The claims\<close>

text \<open>
  Claim C1 says that the first wildcard entry decides by its prefix test, and that
  \<open>has\<close> returns false when that test fails. The first part holds; the test is not a
  prefix test, and the entry need not end in \<open>*\<close>. With the entries
  \<open>["channel:*", "user:*"]\<close> the first wildcard entry is \<open>channel:*\<close>; the query
  \<open>xchannel:y\<close> does not start with \<open>channel\<close>, and \<open>has\<close> returns true, because
  \<open>channel\<close> occurs inside it. With the entries \<open>["x:*:b", "user:*"]\<close> the first entry
  whose last segment is \<open>*\<close> is \<open>user:*\<close>, and \<open>user:voice\<close> starts with \<open>user\<close>;
  \<open>has\<close> returns false, because \<open>x:*:b\<close> has a segment \<open>*\<close> and decides before.
\<close>

theorem first_wildcard_prefix_test_counterexample:
  "effectivePermissions (one_role [''channel:*'', ''user:*'']) 0 = [''channel:*'', ''user:*''] \<and>
   spec_wildcard_entry ''channel:*'' = True \<and>
   spec_starts_with (join CHR '':'' (butlast (split CHR '':'' ''channel:*''))) ''xchannel:y'' = False \<and>
   has (one_role [''channel:*'', ''user:*'']) 0 ''xchannel:y'' = Inr True \<and>
   effectivePermissions (one_role [''x:*:b'', ''user:*'']) 0 = [''x:*:b'', ''user:*''] \<and>
   spec_wildcard_entry ''x:*:b'' = False \<and>
   spec_wildcard_entry ''user:*'' = True \<and>
   spec_starts_with (join CHR '':'' (butlast (split CHR '':'' ''user:*''))) ''user:voice'' = True \<and>
   has (one_role [''x:*:b'', ''user:*'']) 0 ''user:voice'' = Inr False"
  by (simp add: evaluation_rules spec_wildcard_entry_def spec_starts_with_def)

text \<open>
  Claim C1, as the code has it. When the queried permission is not literally an entry,
  the first entry that has a segment \<open>*\<close>, at any position, decides alone: \<open>has\<close>
  returns the verdict of that entry's test, whatever entries follow it. The test is the
  search, anywhere in the permission and ignoring case, for the regular expression made
  of the segments of the entry without the last one, joined by colons; when this text
  consists of plain characters, \<open>has\<close> returns true if the text occurs somewhere in the
  permission, ignoring case, and false if it does not. In particular, with the effective
  permissions \<open>["user:*", "channel:*"]\<close> the query \<open>channel:quote:delete\<close> is answered
  false.
\<close>

theorem has_first_wildcard_decides:
  "(permission \<notin> set (effectivePermissions st this) \<and>
    effectivePermissions st this = before @ e # after \<and>
    (\<forall>x\<in>set before. ''*'' \<notin> set (split CHR '':'' x)) \<and>
    ''*'' \<in> set (split CHR '':'' e) \<longrightarrow>
      has st this permission = RegExp_i_test (''('' @ wildcard_prefix e @ ''.*)'') permission) \<and>
   (permission \<notin> set (effectivePermissions st this) \<and>
    effectivePermissions st this = before @ e # after \<and>
    (\<forall>x\<in>set before. ''*'' \<notin> set (split CHR '':'' x)) \<and>
    ''*'' \<in> set (split CHR '':'' e) \<and>
    (\<forall>c\<in>set (wildcard_prefix e). \<not> syntax_char c) \<longrightarrow>
      has st this permission =
        Inr (\<exists>u v. map canonicalize permission = u @ map canonicalize (wildcard_prefix e) @ v)) \<and>
   (effectivePermissions st this = [''user:*'', ''channel:*''] \<longrightarrow>
      has st this ''channel:quote:delete'' = Inr False)"
proof -
  have first: "has st this permission =
      RegExp_i_test (''('' @ wildcard_prefix e @ ''.*)'') permission"
    if absent: "permission \<notin> set (effectivePermissions st this)"
      and shape: "effectivePermissions st this = before @ e # after"
      and plain: "\<forall>x\<in>set before. ''*'' \<notin> set (split CHR '':'' x)"
      and star: "''*'' \<in> set (split CHR '':'' e)"
  proof -
    from absent have "has st this permission = has_scan (effectivePermissions st this) permission"
      unfolding has_def effectivePermissions_def Let_def by (rule if_not_P)
    also have "\<dots> = has_scan (before @ e # after) permission"
      by (simp only: shape)
    also have "\<dots> = RegExp_i_test (''('' @ wildcard_prefix e @ ''.*)'') permission"
      unfolding wildcard_prefix_def by (rule has_scan_first_wildcard [OF plain star])
    finally show ?thesis .
  qed
  show ?thesis
  proof (intro conjI impI)
    assume "permission \<notin> set (effectivePermissions st this) \<and>
      effectivePermissions st this = before @ e # after \<and>
      (\<forall>x\<in>set before. ''*'' \<notin> set (split CHR '':'' x)) \<and>
      ''*'' \<in> set (split CHR '':'' e)"
    then show "has st this permission =
        RegExp_i_test (''('' @ wildcard_prefix e @ ''.*)'') permission"
      by (blast intro: first)
  next
    assume a: "permission \<notin> set (effectivePermissions st this) \<and>
      effectivePermissions st this = before @ e # after \<and>
      (\<forall>x\<in>set before. ''*'' \<notin> set (split CHR '':'' x)) \<and>
      ''*'' \<in> set (split CHR '':'' e) \<and>
      (\<forall>c\<in>set (wildcard_prefix e). \<not> syntax_char c)"
    then have "has st this permission =
        RegExp_i_test (''('' @ wildcard_prefix e @ ''.*)'') permission"
      by (blast intro: first)
    also from a have "\<dots> =
        Inr (\<exists>u v. map canonicalize permission = u @ map canonicalize (wildcard_prefix e) @ v)"
      by (blast intro: RegExp_i_test_plain)
    finally show "has st this permission =
        Inr (\<exists>u v. map canonicalize permission = u @ map canonicalize (wildcard_prefix e) @ v)" .
  next
    assume "effectivePermissions st this = [''user:*'', ''channel:*'']"
    then show "has st this ''channel:quote:delete'' = Inr False"
      by (simp add: has_def effectivePermissions_def RegExp_i_test_def parse_RegExp_def
          syntax_char_def dropRight_def canonicalize_def char_of_eq_iff)
  qed
qed

text \<open>
  The theorem at work. On \<open>["user:*", "channel:*"]\<close> the entry \<open>user:*\<close> answers
  \<open>channel:quote:delete\<close> with false, and \<open>channel:*\<close> is not asked. On
  \<open>["channel:*", "user:*"]\<close> the entry \<open>channel:*\<close> answers \<open>xchannel:y\<close> with true,
  and \<open>user:voice\<close> with false although the next entry would match it.
\<close>

theorem has_first_wildcard_decides_witness:
  "''channel:quote:delete'' \<notin> set (effectivePermissions (one_role [''user:*'', ''channel:*'']) 0) \<and>
   effectivePermissions (one_role [''user:*'', ''channel:*'']) 0 = [] @ ''user:*'' # [''channel:*''] \<and>
   ''*'' \<in> set (split CHR '':'' ''user:*'') \<and>
   RegExp_i_test (''('' @ wildcard_prefix ''user:*'' @ ''.*)'') ''channel:quote:delete'' = Inr False \<and>
   has (one_role [''user:*'', ''channel:*'']) 0 ''channel:quote:delete'' = Inr False \<and>
   effectivePermissions (one_role [''channel:*'', ''user:*'']) 0 = [] @ ''channel:*'' # [''user:*''] \<and>
   ''*'' \<in> set (split CHR '':'' ''channel:*'') \<and>
   wildcard_prefix ''channel:*'' = ''channel'' \<and>
   ''xchannel:y'' \<notin> set (effectivePermissions (one_role [''channel:*'', ''user:*'']) 0) \<and>
   has (one_role [''channel:*'', ''user:*'']) 0 ''xchannel:y'' = Inr True \<and>
   ''user:voice'' \<notin> set (effectivePermissions (one_role [''channel:*'', ''user:*'']) 0) \<and>
   has (one_role [''channel:*'', ''user:*'']) 0 ''user:voice'' =
     RegExp_i_test ''(channel.*)'' ''user:voice'' \<and>
   has (one_role [''channel:*'', ''user:*'']) 0 ''user:voice'' = Inr False"
proof -
  let ?uc = "one_role [''user:*'', ''channel:*'']"
  let ?cu = "one_role [''channel:*'', ''user:*'']"
  have eff1: "effectivePermissions ?uc 0 = [] @ ''user:*'' # [''channel:*'']"
    by (simp add: evaluation_rules)
  have absent1: "''channel:quote:delete'' \<notin> set (effectivePermissions ?uc 0)"
    by (simp add: eff1)
  have star1: "''*'' \<in> set (split CHR '':'' ''user:*'')" by simp
  have none: "\<forall>x\<in>set ([] :: string list). ''*'' \<notin> set (split CHR '':'' x)" by simp
  have test1: "RegExp_i_test (''('' @ wildcard_prefix ''user:*'' @ ''.*)'') ''channel:quote:delete'' =
      Inr False"
    by (simp add: evaluation_rules)
  note rule1 = has_first_wildcard_decides
    [of "''channel:quote:delete''" ?uc 0 "[]" "''user:*''" "[''channel:*'']"]
  from rule1 absent1 eff1 none star1
  have "has ?uc 0 ''channel:quote:delete'' =
      RegExp_i_test (''('' @ wildcard_prefix ''user:*'' @ ''.*)'') ''channel:quote:delete''"
    by blast
  with test1 have res1: "has ?uc 0 ''channel:quote:delete'' = Inr False" by simp
  have eff2: "effectivePermissions ?cu 0 = [] @ ''channel:*'' # [''user:*'']"
    by (simp add: evaluation_rules)
  have star2: "''*'' \<in> set (split CHR '':'' ''channel:*'')" by simp
  have pre2: "wildcard_prefix ''channel:*'' = ''channel''" by (simp add: evaluation_rules)
  have lit2: "\<forall>c\<in>set (wildcard_prefix ''channel:*''). \<not> syntax_char c"
    by (simp add: pre2 syntax_char_def)
  have absent2: "''xchannel:y'' \<notin> set (effectivePermissions ?cu 0)" by (simp add: eff2)
  note rule2 = has_first_wildcard_decides
    [of "''xchannel:y''" ?cu 0 "[]" "''channel:*''" "[''user:*'']"]
  from rule2 absent2 eff2 none star2 lit2
  have "has ?cu 0 ''xchannel:y'' =
      Inr (\<exists>u v. map canonicalize ''xchannel:y'' =
                    u @ map canonicalize (wildcard_prefix ''channel:*'') @ v)"
    by blast
  moreover have "map canonicalize ''xchannel:y'' =
      map canonicalize ''x'' @ map canonicalize (wildcard_prefix ''channel:*'') @ map canonicalize '':y''"
    by (simp add: pre2)
  then have "\<exists>u v. map canonicalize ''xchannel:y'' =
      u @ map canonicalize (wildcard_prefix ''channel:*'') @ v"
    by blast
  ultimately have res2: "has ?cu 0 ''xchannel:y'' = Inr True" by simp
  have absent3: "''user:voice'' \<notin> set (effectivePermissions ?cu 0)" by (simp add: eff2)
  note rule3 = has_first_wildcard_decides
    [of "''user:voice''" ?cu 0 "[]" "''channel:*''" "[''user:*'']"]
  from rule3 absent3 eff2 none star2
  have "has ?cu 0 ''user:voice'' =
      RegExp_i_test (''('' @ wildcard_prefix ''channel:*'' @ ''.*)'') ''user:voice''"
    by blast
  then have res3: "has ?cu 0 ''user:voice'' = RegExp_i_test ''(channel.*)'' ''user:voice''"
    by (simp add: pre2)
  have test3: "RegExp_i_test ''(channel.*)'' ''user:voice'' = Inr False"
    by (simp add: evaluation_rules)
  from res3 test3 have res3': "has ?cu 0 ''user:voice'' = Inr False" by simp
  from absent1 eff1 star1 test1 res1 eff2 star2 pre2 absent2 res2 absent3 res3 res3'
  show ?thesis by blast
qed

text \<open>
  Claim C2 says that an entry is a wildcard entry exactly when its last segment is \<open>*\<close>
  and that its test is whether the permission starts with the joined segments before the
  marker. The code differs on both points. With the entries \<open>["channel:*"]\<close> the query
  \<open>xchannel:y\<close> is answered true, because the regular expression is searched anywhere in
  the permission; the rule of the specification answers false. With the entries
  \<open>["x:*:b", "user:*"]\<close> the query \<open>user:voice\<close> is answered false, because
  \<open>x:*:b\<close> has a segment \<open>*\<close> and decides with the pattern \<open>(x:*.*)\<close>; the rule of
  the specification skips that entry and answers true.
\<close>

theorem has_differs_from_spec_counterexample:
  "has (one_role [''channel:*'']) 0 ''xchannel:y'' = Inr True \<and>
   spec_has (effectivePermissions (one_role [''channel:*'']) 0) ''xchannel:y'' = False \<and>
   has (one_role [''x:*:b'', ''user:*'']) 0 ''user:voice'' = Inr False \<and>
   spec_has (effectivePermissions (one_role [''x:*:b'', ''user:*'']) 0) ''user:voice'' = True"
  by (simp add: evaluation_rules spec_has_def spec_wildcard_entry_def spec_starts_with_def)

text \<open>
  Claim C2, as the code has it. For a permission that is not literally an entry: when no
  entry has a segment \<open>*\<close>, \<open>has\<close> returns false. Otherwise the first entry with a
  segment \<open>*\<close>, at any position, decides, and its test is the search, anywhere in
  the permission and ignoring case, for the regular expression made of the segments of
  that entry without the last one, joined by colons. When this text consists of plain
  characters, the test is whether the text occurs somewhere in the permission, ignoring
  case.
\<close>

theorem has_wildcard_rule:
  "(permission \<notin> set (effectivePermissions st this) \<and>
    (\<forall>x\<in>set (effectivePermissions st this). ''*'' \<notin> set (split CHR '':'' x)) \<longrightarrow>
      has st this permission = Inr False) \<and>
   (permission \<notin> set (effectivePermissions st this) \<and>
    effectivePermissions st this = before @ e # after \<and>
    (\<forall>x\<in>set before. ''*'' \<notin> set (split CHR '':'' x)) \<and>
    ''*'' \<in> set (split CHR '':'' e) \<longrightarrow>
      has st this permission =
        RegExp_i_test (''('' @ wildcard_prefix e @ ''.*)'') permission) \<and>
   ((\<forall>c\<in>set pre. \<not> syntax_char c) \<longrightarrow>
      RegExp_i_test (''('' @ pre @ ''.*)'') permission =
        Inr (\<exists>u v. map canonicalize permission = u @ map canonicalize pre @ v))"
proof (intro conjI impI)
  assume a: "permission \<notin> set (effectivePermissions st this) \<and>
    (\<forall>x\<in>set (effectivePermissions st this). ''*'' \<notin> set (split CHR '':'' x))"
  from a have absent: "permission \<notin> set (effectivePermissions st this)" by blast
  from a have plain: "\<forall>x\<in>set (effectivePermissions st this). ''*'' \<notin> set (split CHR '':'' x)"
    by blast
  from absent have "has st this permission = has_scan (effectivePermissions st this) permission"
    by (simp add: has_effectivePermissions)
  also from plain have "\<dots> = Inr False" by (rule has_scan_no_wildcard)
  finally show "has st this permission = Inr False" .
next
  assume a: "permission \<notin> set (effectivePermissions st this) \<and>
    effectivePermissions st this = before @ e # after \<and>
    (\<forall>x\<in>set before. ''*'' \<notin> set (split CHR '':'' x)) \<and>
    ''*'' \<in> set (split CHR '':'' e)"
  from a have absent: "permission \<notin> set (effectivePermissions st this)" by blast
  from a have shape: "effectivePermissions st this = before @ e # after" by blast
  from a have plain: "\<forall>x\<in>set before. ''*'' \<notin> set (split CHR '':'' x)" by blast
  from a have star: "''*'' \<in> set (split CHR '':'' e)" by blast
  from absent have "has st this permission = has_scan (effectivePermissions st this) permission"
    by (simp add: has_effectivePermissions)
  also have "\<dots> = has_scan (before @ e # after) permission"
    by (simp only: shape)
  also have "\<dots> = RegExp_i_test (''('' @ wildcard_prefix e @ ''.*)'') permission"
    unfolding wildcard_prefix_def by (rule has_scan_first_wildcard [OF plain star])
  finally show "has st this permission =
      RegExp_i_test (''('' @ wildcard_prefix e @ ''.*)'') permission" .
next
  assume "\<forall>c\<in>set pre. \<not> syntax_char c"
  then show "RegExp_i_test (''('' @ pre @ ''.*)'') permission =
      Inr (\<exists>u v. map canonicalize permission = u @ map canonicalize pre @ v)"
    by (rule RegExp_i_test_plain)
qed

text \<open>
  The theorem at work: an entry without \<open>*\<close> is passed over; \<open>channel:*\<close> answers by
  searching \<open>channel\<close> anywhere, in either case; \<open>x:*:b\<close> decides although its last
  segment is not \<open>*\<close>; and on \<open>*:b\<close> the query throws, the pattern \<open>(*.*)\<close> having
  nothing to repeat.
\<close>

theorem has_wildcard_rule_witness:
  "has (one_role [''user:voice'']) 0 ''user'' = Inr False \<and>
   ''channel:quote:delete'' \<notin> set (effectivePermissions (one_role [''user:voice'', ''channel:*'']) 0) \<and>
   effectivePermissions (one_role [''user:voice'', ''channel:*'']) 0 = [''user:voice''] @ ''channel:*'' # [] \<and>
   ''*'' \<notin> set (split CHR '':'' ''user:voice'') \<and>
   ''*'' \<in> set (split CHR '':'' ''channel:*'') \<and>
   wildcard_prefix ''channel:*'' = ''channel'' \<and>
   has (one_role [''user:voice'', ''channel:*'']) 0 ''channel:quote:delete'' = Inr True \<and>
   has (one_role [''user:voice'', ''channel:*'']) 0 ''xChannel'' = Inr True \<and>
   has (one_role [''user:voice'', ''channel:*'']) 0 ''user:voice:x'' = Inr False \<and>
   ''*'' \<in> set (split CHR '':'' ''x:*:b'') \<and>
   has (one_role [''x:*:b'', ''user:*'']) 0 ''user:voice'' =
     RegExp_i_test ''(x:*.*)'' ''user:voice'' \<and>
   has (one_role [''*:b'']) 0 ''a:b'' = Inl SyntaxError"
proof -
  let ?st = "one_role [''user:voice'', ''channel:*'']"
  have none: "has (one_role [''user:voice'']) 0 ''user'' = Inr False"
    using has_wildcard_rule [of "''user''" "one_role [''user:voice'']" 0]
    by (simp add: evaluation_rules)
  have eff: "effectivePermissions ?st 0 = [''user:voice''] @ ''channel:*'' # []"
    by (simp add: evaluation_rules)
  have pre: "wildcard_prefix ''channel:*'' = ''channel''"
    by (simp add: evaluation_rules)
  have lit: "\<forall>c\<in>set ''channel''. \<not> syntax_char c"
    by (simp add: syntax_char_def)
  have plain: "\<forall>x\<in>set [''user:voice'']. ''*'' \<notin> set (split CHR '':'' x)" by simp
  have nostar: "''*'' \<notin> set (split CHR '':'' ''user:voice'')" by simp
  have star: "''*'' \<in> set (split CHR '':'' ''channel:*'')" by simp
  have absent: "\<And>p. p \<notin> set [''user:voice'', ''channel:*''] \<Longrightarrow>
      has ?st 0 p = Inr (\<exists>u v. map canonicalize p = u @ map canonicalize ''channel'' @ v)"
  proof -
    fix p :: string
    assume p: "p \<notin> set [''user:voice'', ''channel:*'']"
    note rule = has_wildcard_rule
      [of p ?st 0 "[''user:voice'']" "''channel:*''" "[]" "''channel''"]
    from p eff have "p \<notin> set (effectivePermissions ?st 0)" by simp
    with rule eff plain star have "has ?st 0 p = RegExp_i_test (''('' @ ''channel'' @ ''.*)'') p"
      by (simp only: pre) blast
    with rule lit show "has ?st 0 p =
        Inr (\<exists>u v. map canonicalize p = u @ map canonicalize ''channel'' @ v)"
      by simp
  qed
  have away: "''channel:quote:delete'' \<notin> set (effectivePermissions ?st 0)"
    by (simp add: eff)
  have "map canonicalize ''channel:quote:delete'' =
      [] @ map canonicalize ''channel'' @ map canonicalize '':quote:delete''" by simp
  then have "\<exists>u v. map canonicalize ''channel:quote:delete'' = u @ map canonicalize ''channel'' @ v"
    by blast
  with absent [of "''channel:quote:delete''"]
  have first: "has ?st 0 ''channel:quote:delete'' = Inr True" by simp
  have "map canonicalize ''xChannel'' = map canonicalize ''x'' @ map canonicalize ''channel'' @ []"
    by (simp add: canonicalize_def char_of_eq_iff char_eq_char_of_iff)
  then have "\<exists>u v. map canonicalize ''xChannel'' = u @ map canonicalize ''channel'' @ v"
    by blast
  with absent [of "''xChannel''"]
  have inside: "has ?st 0 ''xChannel'' = Inr True" by simp
  have other: "has ?st 0 ''user:voice:x'' = Inr False"
    by (simp add: evaluation_rules)
  let ?mid = "one_role [''x:*:b'', ''user:*'']"
  have effm: "effectivePermissions ?mid 0 = [] @ ''x:*:b'' # [''user:*'']"
    by (simp add: evaluation_rules)
  have starm: "''*'' \<in> set (split CHR '':'' ''x:*:b'')" by simp
  have prem: "wildcard_prefix ''x:*:b'' = ''x:*''" by (simp add: evaluation_rules)
  have mid: "has ?mid 0 ''user:voice'' = RegExp_i_test ''(x:*.*)'' ''user:voice''"
    using has_wildcard_rule [of "''user:voice''" ?mid 0 "[]" "''x:*:b''" "[''user:*'']"] effm starm
    by (simp add: prem)
  have throws: "has (one_role [''*:b'']) 0 ''a:b'' = Inl SyntaxError"
    by (simp add: evaluation_rules)
  from none away eff nostar star pre first inside other starm mid throws show ?thesis
    by blast
qed

text \<open>
  Claim C3. If the queried permission is literally an entry of the role's current
  effective permissions, \<open>has\<close> returns true, whatever wildcard entries the list holds
  and wherever they stand.
\<close>

theorem has_exact_match:
  "permission \<in> set (effectivePermissions st this) \<Longrightarrow> has st this permission = Inr True"
  by (simp add: has_def effectivePermissions_def)

theorem has_exact_match_witness:
  "''channel:quote:delete'' \<in> set (effectivePermissions (one_role [''user:*'', ''channel:quote:delete'']) 0) \<and>
   has (one_role [''user:*'', ''channel:quote:delete'']) 0 ''channel:quote:delete'' = Inr True"
proof -
  have h: "''channel:quote:delete'' \<in> set (effectivePermissions (one_role [''user:*'', ''channel:quote:delete'']) 0)"
    by (simp add: evaluation_rules)
  from h has_exact_match [OF h] show ?thesis by (rule conjI)
qed

text \<open>
  Claim C4 says that no operation changes the raw permissions. The constructor stores one
  array in both fields, so for a role built without parents from \<open>["a"]\<close> the call
  \<open>add("b")\<close> pushes onto the raw permissions as well: they become \<open>["a", "b"]\<close> and
  \<open>hasInRaw("b")\<close> turns from false to true.
\<close>

theorem add_changes_rawPermissions:
  "rawPermissionsList (one_role [''a'']) 0 = [''a''] \<and>
   hasInRaw (one_role [''a'']) 0 ''b'' = False \<and>
   rawPermissionsList (add 0 ''b'' (one_role [''a''])) 0 = [''a'', ''b''] \<and>
   hasInRaw (add 0 ''b'' (one_role [''a''])) 0 ''b'' = True"
  by (simp add: evaluation_rules)



text \<open>
  Claim C6 says that the effective permissions never hold a string twice. The constructor
  keeps the caller's list as it is when there are no parents: a role built from
  \<open>["a", "a"]\<close> has the effective permissions \<open>["a", "a"]\<close>. (\<open>set\<close> keeps the
  caller's list as well.)
\<close>

theorem duplicates_counterexample:
  "effectivePermissions (one_role [''a'', ''a'']) 0 = [''a'', ''a''] \<and>
   \<not> distinct (effectivePermissions (one_role [''a'', ''a'']) 0)"
  by (simp add: evaluation_rules)

text \<open>
  Claim C6, as the code has it. After the construction of a role with at least one parent
  the effective permissions hold no string twice. After the construction of a role
  without parents, and after \<open>set\<close>, they hold no string twice exactly when the list
  that the caller gave holds none twice. \<open>add\<close> leaves the property as it is, and
  \<open>remove\<close> keeps it.
\<close>

theorem effectivePermissions_distinct:
  "(Role_new kebabCase u st = (r, st') \<and> inherits_arg u = Some (p # ps) \<longrightarrow>
      distinct (effectivePermissions st' r)) \<and>
   (Role_new kebabCase u st = (r, st') \<and> (inherits_arg u = None \<or> inherits_arg u = Some []) \<longrightarrow>
      distinct (effectivePermissions st' r) = distinct (arrays st (permissions_arg u))) \<and>
   distinct (effectivePermissions (snd (set_Role this a st)) this) = distinct (arrays st a) \<and>
   distinct (effectivePermissions (add this permission st) this) =
     distinct (effectivePermissions st this) \<and>
   (distinct (effectivePermissions st this) \<longrightarrow>
      distinct (effectivePermissions (remove this permission st) this))"
proof (intro conjI impI)
  assume a: "Role_new kebabCase u st = (r, st') \<and> inherits_arg u = Some (p # ps)"
  obtain qs q where "p # ps = qs @ [q]" by (cases "p # ps" rule: rev_cases) auto
  with a have "inherits_arg u = Some (qs @ [q])" by simp
  with a show "distinct (effectivePermissions st' r)"
    by (blast intro: Role_new_distinct_with_parents)
next
  assume a: "Role_new kebabCase u st = (r, st') \<and> (inherits_arg u = None \<or> inherits_arg u = Some [])"
  then have new: "Role_new kebabCase u st = (r, st')"
    and inh: "inherits_arg u = None \<or> inherits_arg u = Some []" by blast+
  from Role_new_no_parents [OF inh new]
  show "distinct (effectivePermissions st' r) = distinct (arrays st (permissions_arg u))"
    by (simp add: effectivePermissions_def)
next
  show "distinct (effectivePermissions (snd (set_Role this a st)) this) = distinct (arrays st a)"
    by (simp add: effectivePermissions_set_Role)
next
  show "distinct (effectivePermissions (add this permission st) this) =
     distinct (effectivePermissions st this)"
    by (simp add: effectivePermissions_add)
next
  assume "distinct (effectivePermissions st this)"
  then show "distinct (effectivePermissions (remove this permission st) this)"
    by (simp add: effectivePermissions_remove)
qed

theorem effectivePermissions_distinct_witness:
  "distinct (effectivePermissions (parent_and_child [''a'', ''a'', ''b''] [''b'', ''b'']) 1) \<and>
   distinct (arrays (snd (new_array [''a'', ''b''] empty_store)) 0) \<and>
   distinct (effectivePermissions (one_role [''a'', ''b'']) 0) \<and>
   distinct (effectivePermissions (snd (set_Role 0 0 (one_role [''a'', ''b'']))) 0) \<and>
   distinct (effectivePermissions (add 0 ''a'' (add 0 ''c'' (one_role [''a'', ''b'']))) 0) \<and>
   distinct (effectivePermissions (remove 0 ''a'' (one_role [''a'', ''b''])) 0)"
proof -
  let ?ua = "\<lparr> id_arg = ''user'', name_arg = ''user'', type_arg = custom, permissions_arg = 0,
       inherits_arg = None, boost_arg = None \<rparr>"
  let ?sa = "snd (new_array [''a'', ''b''] empty_store)"
  let ?one = "one_role [''a'', ''b'']"
  let ?uc = "\<lparr> id_arg = ''child'', name_arg = ''child'', type_arg = custom, permissions_arg = 1,
       inherits_arg = Some [0], boost_arg = None \<rparr>"
  let ?sc = "snd (new_array [''b'', ''b''] (one_role [''a'', ''a'', ''b'']))"
  let ?pc = "parent_and_child [''a'', ''a'', ''b''] [''b'', ''b'']"
  have newa: "Role_new id ?ua ?sa = (0, ?one)" by (simp add: evaluation_rules)
  have newc: "Role_new id ?uc ?sc = (1, ?pc)" by (simp add: evaluation_rules)
  have given: "distinct (arrays ?sa 0)" by (simp add: evaluation_rules)
  have child: "distinct (effectivePermissions ?pc 1)"
    using effectivePermissions_distinct [of id ?uc ?sc 1 ?pc 0 "[]"] newc by simp
  have alone: "distinct (effectivePermissions ?one 0)"
    using effectivePermissions_distinct [of id ?ua ?sa 0 ?one] newa given by simp
  have same: "arrays ?one 0 = arrays ?sa 0" by (simp add: evaluation_rules)
  have setd: "distinct (effectivePermissions (snd (set_Role 0 0 ?one)) 0)"
    using effectivePermissions_distinct [where st = ?one and this = 0 and a = 0] given same by simp
  have add1: "distinct (effectivePermissions (add 0 ''c'' ?one) 0)"
    using effectivePermissions_distinct [where st = ?one and this = 0 and permission = "''c''"] alone by simp
  have add2: "distinct (effectivePermissions (add 0 ''a'' (add 0 ''c'' ?one)) 0)"
    using effectivePermissions_distinct [where st = "add 0 ''c'' ?one" and this = 0 and permission = "''a''"] add1 by simp
  have rem: "distinct (effectivePermissions (remove 0 ''a'' ?one) 0)"
    using effectivePermissions_distinct [where st = ?one and this = 0 and permission = "''a''"] alone by simp
  from child given alone setd add2 rem show ?thesis by simp
qed

text \<open>
  Claim C7. \<open>hasInRaw\<close> is true exactly for the strings that are literally in the raw
  permissions; it expands no wildcard and follows no parent. In particular, when a role
  is constructed with a parent that has the permission \<open>x\<close> and its own list does not
  hold \<open>x\<close>, then \<open>hasInRaw\<close> of \<open>x\<close> is false and \<open>has\<close> of \<open>x\<close> is true.
\<close>

theorem hasInRaw_literal_only:
  "(hasInRaw st this permission \<longleftrightarrow> permission \<in> set (rawPermissionsList st this)) \<and>
   (Role_new kebabCase u st = (r, st') \<and> inherits_arg u = Some ps \<and>
    permissions_arg u < arrays_top st \<and>
    (\<forall>q\<in>set ps. q < roles_top st \<and> permissions (roles st q) < arrays_top st) \<and>
    p \<in> set ps \<and> x \<in> set (effectivePermissions st p) \<and>
    x \<notin> set (arrays st (permissions_arg u)) \<longrightarrow>
      \<not> hasInRaw st' r x \<and> has st' r x = Inr True)"
proof (intro conjI impI)
  show "hasInRaw st this permission \<longleftrightarrow> permission \<in> set (rawPermissionsList st this)"
    by (rule hasInRaw_rawPermissionsList)
next
  assume a: "Role_new kebabCase u st = (r, st') \<and> inherits_arg u = Some ps \<and>
    permissions_arg u < arrays_top st \<and>
    (\<forall>q\<in>set ps. q < roles_top st \<and> permissions (roles st q) < arrays_top st) \<and>
    p \<in> set ps \<and> x \<in> set (effectivePermissions st p) \<and>
    x \<notin> set (arrays st (permissions_arg u))"
  from a have new: "Role_new kebabCase u st = (r, st')" by blast
  from a have inh: "inherits_arg u = Some ps" by blast
  from a have raw: "permissions_arg u < arrays_top st" by blast
  from a have parents: "\<forall>q\<in>set ps. q < roles_top st \<and> permissions (roles st q) < arrays_top st"
    by blast
  from a have p: "p \<in> set ps" and x: "x \<in> set (effectivePermissions st p)"
    and own: "x \<notin> set (arrays st (permissions_arg u))" by blast+
  note fr = Role_new_frame [OF new inh]
  have rawl: "rawPermissionsList st' r = arrays st (permissions_arg u)"
    using fr(3) fr(5) raw by (simp add: rawPermissionsList_def)
  with own show "\<not> hasInRaw st' r x" by (simp add: hasInRaw_rawPermissionsList)
  have "set (effectivePermissions st' r) =
      set (arrays st (permissions_arg u)) \<union> (\<Union>q\<in>set ps. set (effectivePermissions st q))"
    by (simp add: effective_list_after_Role_new [OF new inh parents] set_foldl_union_lodash)
  with p x have "x \<in> set (effectivePermissions st' r)" by blast
  then show "has st' r x = Inr True" by (simp add: has_effectivePermissions)
qed

theorem hasInRaw_literal_only_witness:
  "hasInRaw (one_role [''channel:*'']) 0 ''channel:*'' \<and>
   \<not> hasInRaw (one_role [''channel:*'']) 0 ''channel:x'' \<and>
   (1::nat) < arrays_top (snd (new_array [''y''] (one_role [''x'']))) \<and>
   (0::nat) < roles_top (snd (new_array [''y''] (one_role [''x'']))) \<and>
   permissions (roles (snd (new_array [''y''] (one_role [''x'']))) 0)
     < arrays_top (snd (new_array [''y''] (one_role [''x'']))) \<and>
   ''x'' \<in> set (effectivePermissions (snd (new_array [''y''] (one_role [''x'']))) 0) \<and>
   ''x'' \<notin> set (arrays (snd (new_array [''y''] (one_role [''x'']))) 1) \<and>
   \<not> hasInRaw (parent_and_child [''x''] [''y'']) 1 ''x'' \<and>
   has (parent_and_child [''x''] [''y'']) 1 ''x'' = Inr True"
proof -
  let ?uc = "\<lparr> id_arg = ''child'', name_arg = ''child'', type_arg = custom, permissions_arg = 1,
       inherits_arg = Some [0], boost_arg = None \<rparr>"
  let ?sc = "snd (new_array [''y''] (one_role [''x'']))"
  let ?pc = "parent_and_child [''x''] [''y'']"
  let ?one = "one_role [''channel:*'']"
  have new: "Role_new id ?uc ?sc = (1, ?pc)" by (simp add: evaluation_rules)
  have h1: "(1::nat) < arrays_top ?sc" by (simp add: evaluation_rules)
  have h2: "(0::nat) < roles_top ?sc" by (simp add: evaluation_rules)
  have h3: "permissions (roles ?sc 0) < arrays_top ?sc" by (simp add: evaluation_rules)
  have h4: "''x'' \<in> set (effectivePermissions ?sc 0)" by (simp add: evaluation_rules)
  have h5: "''x'' \<notin> set (arrays ?sc 1)" by (simp add: evaluation_rules)
  have inherited: "\<not> hasInRaw ?pc 1 ''x'' \<and> has ?pc 1 ''x'' = Inr True"
    using hasInRaw_literal_only [where kebabCase = id and u = ?uc and st = ?sc and r = 1
        and st' = ?pc and ps = "[0]" and p = 0 and x = "''x''"] new h1 h2 h3 h4 h5
    by simp
  have raws: "rawPermissionsList ?one 0 = [''channel:*'']" by (simp add: evaluation_rules)
  have lit: "hasInRaw ?one 0 ''channel:*''"
    using hasInRaw_literal_only [of ?one 0 "''channel:*''"] by (simp add: raws)
  have nowild: "\<not> hasInRaw ?one 0 ''channel:x''"
    using hasInRaw_literal_only [of ?one 0 "''channel:x''"] by (simp add: raws)
  from lit nowild h1 h2 h3 h4 h5 inherited show ?thesis by blast
qed

text \<open>
  Claim C8 says that \<open>has(p)\<close> is false after \<open>remove(p)\<close>. \<open>remove\<close> deletes the
  literal entry only: with the entries \<open>["channel:*", "channel:x"]\<close>, after
  \<open>remove("channel:x")\<close> the wildcard entry still answers \<open>has("channel:x")\<close> with
  true.
\<close>

theorem remove_then_has_counterexample:
  "has (remove 0 ''channel:x'' (one_role [''channel:*'', ''channel:x''])) 0 ''channel:x'' = Inr True"
  by (simp add: evaluation_rules)

text \<open>
  Claim C8, as the code has it. After \<open>add(p)\<close>, \<open>has(p)\<close> is true. After
  \<open>remove(p)\<close>, \<open>p\<close> is no longer an entry of the effective permissions, and
  \<open>has(p)\<close> is false when no other entry has a segment \<open>*\<close>. \<open>add(p)\<close> with \<open>p\<close>
  already present changes nothing.
\<close>

theorem add_remove_then_has:
  "has (add this permission st) this permission = Inr True \<and>
   permission \<notin> set (effectivePermissions (remove this permission st) this) \<and>
   ((\<forall>e\<in>set (effectivePermissions st this). e \<noteq> permission \<longrightarrow> ''*'' \<notin> set (split CHR '':'' e)) \<longrightarrow>
      has (remove this permission st) this permission = Inr False) \<and>
   (permission \<in> set (effectivePermissions st this) \<longrightarrow> add this permission st = st)"
proof (intro conjI impI)
  show "has (add this permission st) this permission = Inr True"
    by (simp add: has_effectivePermissions effectivePermissions_add)
next
  have eff: "effectivePermissions (remove this permission st) this =
      filter (\<lambda>perm. perm \<noteq> permission) (effectivePermissions st this)"
    by (rule effectivePermissions_remove)
  show absent: "permission \<notin> set (effectivePermissions (remove this permission st) this)"
    by (simp add: eff)
  assume "\<forall>e\<in>set (effectivePermissions st this). e \<noteq> permission \<longrightarrow> ''*'' \<notin> set (split CHR '':'' e)"
  then have plain: "\<forall>e\<in>set (effectivePermissions (remove this permission st) this).
      ''*'' \<notin> set (split CHR '':'' e)"
    by (simp add: eff)
  from absent
  have "has (remove this permission st) this permission =
      has_scan (effectivePermissions (remove this permission st) this) permission"
    unfolding has_def effectivePermissions_def Let_def by (rule if_not_P)
  also from plain have "\<dots> = Inr False" by (rule has_scan_no_wildcard)
  finally show "has (remove this permission st) this permission = Inr False" .
next
  assume "permission \<in> set (effectivePermissions st this)"
  then show "add this permission st = st"
    by (simp add: add_def effectivePermissions_def)
qed

theorem add_remove_then_has_witness:
  "has (add 0 ''user:voice'' (one_role [''channel:x''])) 0 ''user:voice'' = Inr True \<and>
   ''*'' \<notin> set (split CHR '':'' ''user:voice'') \<and>
   has (remove 0 ''channel:x'' (one_role [''user:voice'', ''channel:x''])) 0 ''channel:x'' = Inr False \<and>
   ''channel:x'' \<in> set (effectivePermissions (one_role [''user:voice'', ''channel:x'']) 0) \<and>
   add 0 ''channel:x'' (one_role [''user:voice'', ''channel:x'']) = one_role [''user:voice'', ''channel:x'']"
proof -
  let ?st = "one_role [''user:voice'', ''channel:x'']"
  have eff: "effectivePermissions ?st 0 = [''user:voice'', ''channel:x'']"
    by (simp add: evaluation_rules)
  have star: "''*'' \<notin> set (split CHR '':'' ''user:voice'')" by simp
  note inst = add_remove_then_has [of 0 "''channel:x''" ?st]
  from inst eff star
  have gone: "has (remove 0 ''channel:x'' ?st) 0 ''channel:x'' = Inr False" by simp
  from inst eff have same: "add 0 ''channel:x'' ?st = ?st" by simp
  have added: "has (add 0 ''user:voice'' (one_role [''channel:x''])) 0 ''user:voice'' = Inr True"
    using add_remove_then_has [of 0 "''user:voice''" "one_role [''channel:x'']"] by blast
  from added star gone eff same show ?thesis by simp
qed

text \<open>
  Claim C9 says that no mutation of a parent changes the effective permissions of a child
  built before. \<open>set\<close> stores the array it is given, and \<open>add\<close> pushes in place: after
  \<open>P.set(C.getPerms())\<close> the parent holds the child's own array, and \<open>P.add("x")\<close>
  appends \<open>x\<close> to the effective permissions of the child, whose \<open>has("x")\<close> turns from
  false to true.
\<close>

theorem parent_mutation_counterexample:
  "has (parent_and_child [''a''] [''b'']) 1 ''x'' = Inr False \<and>
   has (fold (mutate 0) [Set (getPerms (parent_and_child [''a''] [''b'']) 1), Add ''x'']
          (parent_and_child [''a''] [''b''])) 1 ''x'' = Inr True \<and>
   effectivePermissions (parent_and_child [''a''] [''b'']) 1 = [''b'', ''a''] \<and>
   effectivePermissions
     (fold (mutate 0) [Set (getPerms (parent_and_child [''a''] [''b'']) 1), Add ''x'']
          (parent_and_child [''a''] [''b''])) 1 = [''b'', ''a'', ''x'']"
  by (simp add: evaluation_rules)

text \<open>
  Claim C9, as the code has it. Let the child \<open>c\<close> be constructed with the parent \<open>p\<close>
  (an object that exists, as does its array) in its \<open>inherits\<close> list. Then every sequence
  of calls of \<open>set\<close>, \<open>add\<close> and \<open>remove\<close> on \<open>p\<close> in which \<open>set\<close> is never
  given the child's own effective permission array leaves the effective permissions of
  \<open>c\<close> and the result of every query \<open>has\<close> on \<open>c\<close> unchanged: the union with the
  parent is a new array, built once by the constructor.
\<close>

theorem parent_mutation_leaves_child:
  assumes new: "Role_new kebabCase u st = (c, st')"
    and inh: "inherits_arg u = Some ps"
    and parent: "p \<in> set ps" "p < roles_top st" "permissions (roles st p) < arrays_top st"
    and other: "\<forall>m\<in>set ms. m \<noteq> Set (getPerms st' c)"
  shows "effectivePermissions (fold (mutate p) ms st') c = effectivePermissions st' c \<and>
         has (fold (mutate p) ms st') c permission = has st' c permission"
proof -
  note fr = Role_new_frame [OF new inh]
  from parent(1) have ne: "ps \<noteq> []" by auto
  from parent(2) have pc: "p \<noteq> c" by (simp add: Role_new_ref [OF new])
  with fr(4) have "roles st' p = roles st p" by simp
  with parent(3) have below: "permissions (roles st' p) < arrays_top st" by simp
  from fr(6) ne have fresh: "permissions (roles st' c) = arrays_top st + length ps - 1" by simp
  from ne have len: "1 \<le> length ps" by (cases ps) simp_all
  from below fresh len have diff: "permissions (roles st' p) \<noteq> permissions (roles st' c)"
    by arith
  from fresh fr(1) len have inside: "permissions (roles st' c) < arrays_top st'"
    by arith
  from other have other': "\<forall>m\<in>set ms. m \<noteq> Set (permissions (roles st' c))"
    by (simp add: getPerms_def)
  have eff: "effectivePermissions (fold (mutate p) ms st') c = effectivePermissions st' c"
    by (rule fold_mutate_other_role [OF pc diff inside other'])
  then show ?thesis by (simp add: has_effectivePermissions)
qed

theorem parent_mutation_leaves_child_witness:
  "(0::nat) \<in> set [0] \<and>
   (0::nat) < roles_top (snd (new_array [''b''] (one_role [''a'']))) \<and>
   permissions (roles (snd (new_array [''b''] (one_role [''a'']))) 0)
     < arrays_top (snd (new_array [''b''] (one_role [''a'']))) \<and>
   Set 0 \<noteq> Set (getPerms (parent_and_child [''a''] [''b'']) 1) \<and>
   Add ''x'' \<noteq> Set (getPerms (parent_and_child [''a''] [''b'']) 1) \<and>
   Remove ''a'' \<noteq> Set (getPerms (parent_and_child [''a''] [''b'']) 1) \<and>
   effectivePermissions (fold (mutate 0) [Set 0, Add ''x'', Remove ''a''] (parent_and_child [''a''] [''b''])) 1
     = effectivePermissions (parent_and_child [''a''] [''b'']) 1 \<and>
   has (fold (mutate 0) [Set 0, Add ''x'', Remove ''a''] (parent_and_child [''a''] [''b''])) 1 ''x''
     = has (parent_and_child [''a''] [''b'']) 1 ''x'' \<and>
   has (fold (mutate 0) [Set 0, Add ''x'', Remove ''a''] (parent_and_child [''a''] [''b''])) 0 ''x''
     = Inr True"
proof -
  let ?uc = "\<lparr> id_arg = ''child'', name_arg = ''child'', type_arg = custom, permissions_arg = 1,
       inherits_arg = Some [0], boost_arg = None \<rparr>"
  let ?sc = "snd (new_array [''b''] (one_role [''a'']))"
  let ?pc = "parent_and_child [''a''] [''b'']"
  let ?ms = "[Set 0, Add ''x'', Remove ''a'']"
  have new: "Role_new id ?uc ?sc = (1, ?pc)" by (simp add: evaluation_rules)
  have inh: "inherits_arg ?uc = Some [0]" by simp
  have h1: "(0::nat) \<in> set [0]" by simp
  have h2: "(0::nat) < roles_top ?sc" by (simp add: evaluation_rules)
  have h3: "permissions (roles ?sc 0) < arrays_top ?sc" by (simp add: evaluation_rules)
  have perms: "getPerms ?pc 1 = 2" by (simp add: evaluation_rules)
  have h4: "\<forall>m\<in>set ?ms. m \<noteq> Set (getPerms ?pc 1)" unfolding perms by simp
  note kept = parent_mutation_leaves_child [OF new inh h1 h2 h3 h4, of "''x''"]
  have parent: "has (fold (mutate 0) ?ms ?pc) 0 ''x'' = Inr True"
    by (simp add: evaluation_rules)
  have d1: "Set 0 \<noteq> Set (getPerms ?pc 1)" unfolding perms by simp
  have d2: "Add ''x'' \<noteq> Set (getPerms ?pc 1)" by simp
  have d3: "Remove ''a'' \<noteq> Set (getPerms ?pc 1)" by simp
  from h1 h2 h3 d1 d2 d3 kept parent show ?thesis by blast
qed

text \<open>
  Claim C10. A role constructed with an empty (or absent) \<open>inherits\<close> list holds the
  caller's array in both \<open>permissions\<close> and \<open>rawPermissions\<close>: no copy is made. Adding a
  permission that is not present therefore appends it to the raw permissions too, and
  \<open>hasInRaw\<close> of it is true afterwards.
\<close>

theorem add_extends_rawPermissions_without_parents:
  "inherits_arg u = None \<or> inherits_arg u = Some [] \<Longrightarrow>
   Role_new kebabCase u st = (r, st') \<Longrightarrow>
   permissions (roles st' r) = rawPermissions (roles st' r) \<and>
   rawPermissions (roles st' r) = permissions_arg u \<and>
   (permission \<notin> set (effectivePermissions st' r) \<longrightarrow>
      rawPermissionsList (add r permission st') r = rawPermissionsList st' r @ [permission] \<and>
      hasInRaw (add r permission st') r permission)"
proof -
  assume inh: "inherits_arg u = None \<or> inherits_arg u = Some []"
    and new: "Role_new kebabCase u st = (r, st')"
  from Role_new_no_parents [OF inh new]
  have same: "permissions (roles st' r) = rawPermissions (roles st' r)"
    and caller: "rawPermissions (roles st' r) = permissions_arg u" by simp_all
  show ?thesis
  proof (intro conjI impI)
    show "permissions (roles st' r) = rawPermissions (roles st' r)" by (rule same)
  next
    show "rawPermissions (roles st' r) = permissions_arg u" by (rule caller)
  next
    assume absent: "permission \<notin> set (effectivePermissions st' r)"
    then show "rawPermissionsList (add r permission st') r = rawPermissionsList st' r @ [permission]"
      using same by (simp add: rawPermissionsList_def effectivePermissions_def roles_add arrays_add)
  next
    assume absent: "permission \<notin> set (effectivePermissions st' r)"
    then show "hasInRaw (add r permission st') r permission"
      using same
      by (simp add: hasInRaw_rawPermissionsList rawPermissionsList_def effectivePermissions_def
          roles_add arrays_add)
  qed
qed

theorem add_extends_rawPermissions_without_parents_witness:
  "permissions (roles (one_role [''a'']) 0) = rawPermissions (roles (one_role [''a'']) 0) \<and>
   ''b'' \<notin> set (effectivePermissions (one_role [''a'']) 0) \<and>
   rawPermissionsList (add 0 ''b'' (one_role [''a''])) 0 = rawPermissionsList (one_role [''a'']) 0 @ [''b''] \<and>
   hasInRaw (add 0 ''b'' (one_role [''a''])) 0 ''b''"
proof -
  let ?u = "\<lparr> id_arg = ''user'', name_arg = ''user'', type_arg = custom, permissions_arg = 0,
       inherits_arg = None, boost_arg = None \<rparr>"
  let ?st = "snd (new_array [''a''] empty_store)"
  have new: "Role_new id ?u ?st = (0, one_role [''a''])"
    by (simp add: one_role_def Role_new_literal_def new_array_def empty_store_def Role_new_def)
  have absent: "''b'' \<notin> set (effectivePermissions (one_role [''a'']) 0)"
    by (simp add: evaluation_rules)
  have inh: "inherits_arg ?u = None \<or> inherits_arg ?u = Some []" by simp
  from add_extends_rawPermissions_without_parents [OF inh new, of "''b''"] absent
  show ?thesis by simp
qed

end
